theory Spec2Isabelle
  imports Complex_Main "HOL-Library.Multiset" "HOL-Library.Sublist"
begin

section \<open>Station allocation of \<^verbatim>\<open>src/main.py\<close> (class \<^verbatim>\<open>CsvDataProcessor\<close>)\<close>

text \<open>
  The class reads the last column of a table, groups the row indices by the station
  label found there (\<^verbatim>\<open>_collect_previous_state\<close>), deals the rows out again
  to the stations 1..8, three per station at most (\<^verbatim>\<open>_distribute_students\<close>),
  and turns the new grouping into a column (\<^verbatim>\<open>convert_state_to_column\<close>).
\<close>

subsection \<open>Data\<close>

text \<open>
  Both dictionaries are built by \<^verbatim>\<open>{i: [] for i in range(0, 9)}\<close> and no key is
  ever added or removed afterwards. A dictionary of this shape is a function from the
  key to its list; \<open>station_keys\<close> is its key list in insertion order (the order of
  \<^verbatim>\<open>.items()\<close>), and a key is in the dictionary when it is in that list. The
  code reads the new state at keys 1..8 only (the results of \<^verbatim>\<open>randint(1, 8)\<close>
  and \<^verbatim>\<open>range(1, 9)\<close>), so no lookup can miss.
\<close>

type_synonym grouping = "nat \<Rightarrow> nat list"

definition station_keys :: "nat list" where
  "station_keys = [0..<9]"

definition fresh_state :: grouping where
  "fresh_state = (\<lambda>i. [])"

datatype error = ValueError | TypeError | OverflowError | IndexError

text \<open>
  A cell of the column: a missing value (\<^verbatim>\<open>None\<close>, \<^verbatim>\<open>NaN\<close>), an integer, a
  finite float (by its exact rational value), an infinite float, or a string (by its
  UTF-8 bytes).
\<close>

datatype cell = Null | IntV int | FloatV rat | InfV | StrV string

text \<open>The warning printed for a row: the value and the row index.\<close>

datatype diagnostic = Not_a_number cell nat

text \<open>
  The lines printed while distributing: the group being processed, a student assigned
  to a station, a student no station was found for.
\<close>

datatype event = Group_header nat "nat list" | Assigned nat nat | Not_assigned nat

text \<open>
  The random source: \<open>rs p\<close> is the result of the \<open>p\<close>-th call of
  \<^verbatim>\<open>random.randint(1, 8)\<close>; the position is threaded through the calls.
\<close>

type_synonym rng = "nat \<Rightarrow> nat"

definition valid_draws :: "rng \<Rightarrow> bool" where
  "valid_draws rs = (\<forall>p. 1 \<le> rs p \<and> rs p \<le> 8)"

record run =
  new_state :: grouping
  log :: "event list"
  pos :: nat

definition start :: run where
  "start = \<lparr>new_state = fresh_state, log = [], pos = 0\<rparr>"

subsection \<open>Python's \<^verbatim>\<open>int()\<close> on a cell\<close>

text \<open>
  A \<^verbatim>\<open>str\<close> is held by its UTF-8 bytes; \<open>utf8_decode\<close> gives back its code
  points (a lead byte tells the length of its sequence, each further byte adds six
  bits).
\<close>

definition lead :: "nat \<Rightarrow> nat \<times> nat" where
  "lead b =
     (if b < 128 then (1, b)
      else if b < 224 then (2, b - 192)
      else if b < 240 then (3, b - 224)
      else (4, b - 240))"

function utf8_decode :: "nat list \<Rightarrow> nat list" where
  "utf8_decode [] = []"
| "utf8_decode (b # bs) =
     foldl (\<lambda>acc c. acc * 64 + (c - 128)) (snd (lead b)) (take (fst (lead b) - 1) bs)
       # utf8_decode (drop (fst (lead b) - 1) bs)"
  by pat_completeness auto
termination
  by (relation "measure length") simp_all

text \<open>
  The code points \<^verbatim>\<open>int()\<close> skips at both ends of a string: the ASCII white space
  of C and the white space of Unicode beyond ASCII (the separators 28..31 are not
  skipped).
\<close>

definition space_points :: "nat list" where
  "space_points =
     [9, 10, 11, 12, 13, 32, 133, 160, 5760, 8192, 8193, 8194, 8195, 8196, 8197, 8198,
      8199, 8200, 8201, 8202, 8232, 8233, 8239, 8287, 12288]"

definition is_space :: "nat \<Rightarrow> bool" where
  "is_space c = (c \<in> set space_points)"

text \<open>
  The decimal digits of Unicode (category Nd, Unicode 14 as in CPython 3.11) come in
  runs of ten, zero to nine; \<open>digit_zeros\<close> lists the code point of each zero.
\<close>

definition digit_zeros :: "nat list" where
  "digit_zeros =
     [48, 1632, 1776, 1984, 2406, 2534, 2662, 2790, 2918, 3046, 3174, 3302, 3430, 3558,
      3664, 3792, 3872, 4160, 4240, 6112, 6160, 6470, 6608, 6784, 6800, 6992, 7088, 7232,
      7248, 42528, 43216, 43264, 43472, 43504, 43600, 44016, 65296, 66720, 68912, 69734,
      69872, 69942, 70096, 70384, 70736, 70864, 71248, 71360, 71472, 71904, 72016, 72784,
      73040, 73120, 92768, 92864, 93008, 120782, 120792, 120802, 120812, 120822, 123200,
      123632, 125264, 130032]"

definition digit_val :: "nat \<Rightarrow> nat option" where
  "digit_val c = map_option (\<lambda>z. c - z) (find (\<lambda>z. z \<le> c \<and> c < z + 10) digit_zeros)"

definition strip :: "nat list \<Rightarrow> nat list" where
  "strip s = rev (dropWhile is_space (rev (dropWhile is_space s)))"

text \<open>
  Decimal digits, single underscores (code point 95) allowed between two digits;
  \<open>digits_after\<close> reads what follows a digit. A literal of more than
  \<open>max_str_digits\<close> digits is refused (the default limit of CPython 3.11; the sign,
  the white space and the underscores do not count).
\<close>

fun digits_after :: "nat \<Rightarrow> nat list \<Rightarrow> nat option" where
  "digits_after acc [] = Some acc"
| "digits_after acc [c] =
     (case digit_val c of Some v \<Rightarrow> Some (10 * acc + v) | None \<Rightarrow> None)"
| "digits_after acc (c # d # ds) =
     (case digit_val c of
        Some v \<Rightarrow> digits_after (10 * acc + v) (d # ds)
      | None \<Rightarrow>
          if c = 95
          then (case digit_val d of
                  Some w \<Rightarrow> digits_after (10 * acc + w) ds
                | None \<Rightarrow> None)
          else None)"

definition max_str_digits :: nat where
  "max_str_digits = 4300"

definition digits_value :: "nat list \<Rightarrow> nat option" where
  "digits_value s =
     (if max_str_digits < length (filter (\<lambda>c. digit_val c \<noteq> None) s) then None
      else case s of
             [] \<Rightarrow> None
           | c # cs \<Rightarrow>
               (case digit_val c of Some v \<Rightarrow> digits_after v cs | None \<Rightarrow> None))"

text \<open>After the white space an optional sign (code points 45 and 43), then the digits.\<close>

definition int_of_points :: "nat list \<Rightarrow> int option" where
  "int_of_points s =
     (case strip s of
        [] \<Rightarrow> None
      | c # cs \<Rightarrow>
          if c = 45 then map_option (\<lambda>n. - int n) (digits_value cs)
          else if c = 43 then map_option int (digits_value cs)
          else map_option int (digits_value (c # cs)))"

definition int_of_str :: "string \<Rightarrow> int option" where
  "int_of_str s = int_of_points (utf8_decode (map of_char s))"

definition py_trunc :: "rat \<Rightarrow> int" where
  "py_trunc r = (if 0 \<le> r then \<lfloor>r\<rfloor> else \<lceil>r\<rceil>)"

definition isnull :: "cell \<Rightarrow> bool" where
  "isnull value = (case value of Null \<Rightarrow> True | _ \<Rightarrow> False)"

text \<open>
  \<^verbatim>\<open>int(value)\<close>: a float is truncated towards zero, an infinite float raises
  \<^verbatim>\<open>OverflowError\<close>, a string that is no decimal literal raises
  \<^verbatim>\<open>ValueError\<close>, \<^verbatim>\<open>None\<close> raises \<^verbatim>\<open>TypeError\<close>.
\<close>

fun py_int :: "cell \<Rightarrow> error + int" where
  "py_int Null = Inl TypeError"
| "py_int (IntV n) = Inr n"
| "py_int (FloatV r) = Inr (py_trunc r)"
| "py_int InfV = Inl OverflowError"
| "py_int (StrV s) = (case int_of_str s of None \<Rightarrow> Inl ValueError | Some n \<Rightarrow> Inr n)"

subsection \<open>\<^verbatim>\<open>_collect_previous_state\<close>\<close>

text \<open>The key computed for a row inside the \<^verbatim>\<open>try\<close>.\<close>

definition row_key :: "cell \<Rightarrow> error + int" where
  "row_key value =
     (if isnull value then Inr 0
      else case py_int value of
             Inl e \<Rightarrow> Inl e
           | Inr n \<Rightarrow> if n = 0 then Inr 0 else py_int value)"

definition has_key :: "int \<Rightarrow> bool" where
  "has_key key = (key \<in> set (map int station_keys))"

text \<open>
  One iteration of the loop: the row index is appended to the group of its key when
  the dictionary has the key; \<^verbatim>\<open>ValueError\<close> and \<^verbatim>\<open>TypeError\<close> are caught
  and the warning is printed; any other exception leaves the loop.
\<close>

fun collect_row :: "grouping \<times> diagnostic list \<Rightarrow> nat \<times> cell \<Rightarrow>
    error + grouping \<times> diagnostic list" where
  "collect_row (previous_state, diags) (i, value) =
     (case row_key value of
        Inr key \<Rightarrow>
          if has_key key
          then Inr (previous_state(nat key := previous_state (nat key) @ [i]), diags)
          else Inr (previous_state, diags)
      | Inl e \<Rightarrow>
          if e = ValueError \<or> e = TypeError
          then Inr (previous_state, diags @ [Not_a_number value i])
          else Inl e)"

fun collect_rows :: "(nat \<times> cell) list \<Rightarrow> grouping \<times> diagnostic list \<Rightarrow>
    error + grouping \<times> diagnostic list" where
  "collect_rows [] st = Inr st"
| "collect_rows (r # rows) st =
     (case collect_row st r of Inl e \<Rightarrow> Inl e | Inr st' \<Rightarrow> collect_rows rows st')"

definition collect_previous_state :: "cell list \<Rightarrow> grouping \<Rightarrow>
    error + grouping \<times> diagnostic list" where
  "collect_previous_state column previous_state =
     collect_rows (enumerate 0 column) (previous_state, [])"

subsection \<open>\<^verbatim>\<open>find_random_available\<close>\<close>

definition randomize :: "rng \<Rightarrow> nat \<Rightarrow> nat \<times> nat" where
  "randomize rs p = (rs p, Suc p)"

text \<open>The first station of \<^verbatim>\<open>range(1, 9)\<close> with fewer than three students.\<close>

definition first_free :: "grouping \<Rightarrow> nat option" where
  "first_free lst = find (\<lambda>station. length (lst station) < 3) [1..<9]"

text \<open>The \<^verbatim>\<open>while\<close> loop that draws again while the drawn station holds exactly three.\<close>

function random_retry :: "rng \<Rightarrow> grouping \<Rightarrow> nat \<Rightarrow> nat \<Rightarrow> nat \<Rightarrow> nat \<times> nat" where
  "random_retry rs lst assigned_station attempts p =
     (if length (lst assigned_station) = 3 \<and> attempts < 8
      then random_retry rs lst (fst (randomize rs p)) (attempts + 1) (snd (randomize rs p))
      else (assigned_station, p))"
  by pat_completeness auto
termination
  by (relation "measure (\<lambda>(rs, lst, a, attempts, p). 8 - attempts)") auto

definition find_random_available :: "rng \<Rightarrow> grouping \<Rightarrow> nat \<Rightarrow> (error + nat) \<times> nat" where
  "find_random_available rs lst p =
     (if first_free lst = None then (Inl ValueError, p)
      else
        case random_retry rs lst (fst (randomize rs p)) 0 (snd (randomize rs p)) of
          (assigned_station, p') \<Rightarrow>
            if length (lst assigned_station) = 3
            then (case first_free lst of
                    Some station \<Rightarrow> (Inr station, p')
                  | None \<Rightarrow> (Inr assigned_station, p'))
            else (Inr assigned_station, p'))"

subsection \<open>\<^verbatim>\<open>check_not_in_list\<close> and \<^verbatim>\<open>_assign_station_for_student\<close>\<close>

fun check_not_in_list :: "nat list \<Rightarrow> nat list \<Rightarrow> bool" where
  "check_not_in_list [] lst = True"
| "check_not_in_list (v # vs) lst = (if v \<in> set lst then False else check_not_in_list vs lst)"

function assign_retry :: "rng \<Rightarrow> nat list \<Rightarrow> grouping \<Rightarrow> nat \<Rightarrow> nat \<Rightarrow> nat \<Rightarrow>
    (error + nat) \<times> nat" where
  "assign_retry rs students_group new_st assigned_station attempts p =
     (if \<not> check_not_in_list students_group (new_st assigned_station) \<and> attempts < 15
      then (case find_random_available rs new_st p of
              (Inl e, p') \<Rightarrow> (Inl e, p')
            | (Inr a, p') \<Rightarrow> assign_retry rs students_group new_st a (attempts + 1) p')
      else (Inr assigned_station, p))"
  by pat_completeness auto
termination
  by (relation "measure (\<lambda>(rs, g, st, a, attempts, p). 15 - attempts)") auto

definition assign_station_for_student :: "rng \<Rightarrow> nat \<Rightarrow> nat list \<Rightarrow> grouping \<Rightarrow> nat \<Rightarrow>
    (error + nat) \<times> nat" where
  "assign_station_for_student rs student students_group new_st p =
     (case find_random_available rs new_st p of
        (Inl e, p') \<Rightarrow> (Inl e, p')
      | (Inr a, p') \<Rightarrow> assign_retry rs students_group new_st a 0 p')"

subsection \<open>\<^verbatim>\<open>_distribute_students\<close>\<close>

text \<open>\<^verbatim>\<open>new_state[assigned_station].append(student)\<close> and the line printed after it.\<close>

definition place :: "nat \<Rightarrow> nat \<Rightarrow> nat \<Rightarrow> run \<Rightarrow> run" where
  "place student station p r =
     r\<lparr>new_state := (new_state r)(station := new_state r station @ [student]),
       log := log r @ [Assigned student station],
       pos := p\<rparr>"

text \<open>
  The loop over the students of a group with a nonzero key: a \<^verbatim>\<open>ValueError\<close> of
  the search is caught, reported, and the loop goes on with the next student.
  The result pairs the exception that leaves the loop, if any, with the state reached.
\<close>

fun place_constrained :: "rng \<Rightarrow> nat list \<Rightarrow> nat list \<Rightarrow> run \<Rightarrow> error option \<times> run" where
  "place_constrained rs students [] r = (None, r)"
| "place_constrained rs students (student # rest) r =
     (case assign_station_for_student rs student students (new_state r) (pos r) of
        (Inr station, p') \<Rightarrow> place_constrained rs students rest (place student station p' r)
      | (Inl e, p') \<Rightarrow>
          if e = ValueError
          then place_constrained rs students rest
                 (r\<lparr>log := log r @ [Not_assigned student], pos := p'\<rparr>)
          else (Some e, r\<lparr>pos := p'\<rparr>))"

text \<open>The loop over the students of group 0: nothing catches the search's exception.\<close>

fun place_free :: "rng \<Rightarrow> nat list \<Rightarrow> run \<Rightarrow> error option \<times> run" where
  "place_free rs [] r = (None, r)"
| "place_free rs (student # rest) r =
     (case find_random_available rs (new_state r) (pos r) of
        (Inr station, p') \<Rightarrow> place_free rs rest (place student station p' r)
      | (Inl e, p') \<Rightarrow> (Some e, r\<lparr>pos := p'\<rparr>))"

text \<open>The outer loop, over \<^verbatim>\<open>previous_state.items()\<close>.\<close>

fun distribute_groups :: "rng \<Rightarrow> grouping \<Rightarrow> nat list \<Rightarrow> run \<Rightarrow> error option \<times> run" where
  "distribute_groups rs previous_state [] r = (None, r)"
| "distribute_groups rs previous_state (key # keys) r =
     (if previous_state key = [] then distribute_groups rs previous_state keys r
      else
        case (if key \<noteq> 0
              then place_constrained rs (previous_state key) (previous_state key)
                     (r\<lparr>log := log r @ [Group_header key (previous_state key)]\<rparr>)
              else place_free rs (previous_state key)
                     (r\<lparr>log := log r @ [Group_header key (previous_state key)]\<rparr>)) of
          (None, r') \<Rightarrow> distribute_groups rs previous_state keys r'
        | (Some e, r') \<Rightarrow> (Some e, r'))"

definition distribute_students :: "rng \<Rightarrow> grouping \<Rightarrow> run \<Rightarrow> error option \<times> run" where
  "distribute_students rs previous_state r = distribute_groups rs previous_state station_keys r"

subsection \<open>\<^verbatim>\<open>convert_state_to_column\<close>\<close>

text \<open>
  The dictionary is taken by its \<^verbatim>\<open>.items()\<close>; \<open>n\<close> is \<^verbatim>\<open>len(self.data)\<close>.
  Writing at an index beyond the end of the list raises \<^verbatim>\<open>IndexError\<close>.
\<close>

fun write_indices :: "nat \<Rightarrow> nat list \<Rightarrow> nat list \<Rightarrow> error + nat list" where
  "write_indices key [] column_values = Inr column_values"
| "write_indices key (index # indices) column_values =
     (if index < length column_values
      then write_indices key indices (column_values[index := key])
      else Inl IndexError)"

fun write_groups :: "(nat \<times> nat list) list \<Rightarrow> nat list \<Rightarrow> error + nat list" where
  "write_groups [] column_values = Inr column_values"
| "write_groups ((key, indices) # rest) column_values =
     (case write_indices key indices column_values of
        Inl e \<Rightarrow> Inl e
      | Inr column_values' \<Rightarrow> write_groups rest column_values')"

definition convert_state_to_column :: "nat \<Rightarrow> (nat \<times> nat list) list \<Rightarrow> error + nat list" where
  "convert_state_to_column n state_items = write_groups state_items (replicate n 0)"

definition items :: "grouping \<Rightarrow> (nat \<times> nat list) list" where
  "items state_dict = map (\<lambda>key. (key, state_dict key)) station_keys"

subsection \<open>\<^verbatim>\<open>template_function\<close>: the allocation run\<close>

text \<open>
  \<^verbatim>\<open>template_function\<close> hands \<^verbatim>\<open>_distribute_students\<close> a new state that is
  empty at every key; the random source is read from its first draw on.
\<close>

definition allocate :: "rng \<Rightarrow> grouping \<Rightarrow> error option \<times> run" where
  "allocate rs previous_state = distribute_students rs previous_state start"

subsection \<open>Notions the properties are stated with\<close>

text \<open>
  Every append to the new state is followed by its \<open>Assigned\<close> line, so the new state
  at any moment of the run is what the lines printed so far build: \<open>replay\<close> of a
  prefix of the log is the new state when that prefix had been printed.
\<close>

fun apply_event :: "grouping \<Rightarrow> event \<Rightarrow> grouping" where
  "apply_event st (Assigned student station) = st(station := st station @ [student])"
| "apply_event st (Group_header key students) = st"
| "apply_event st (Not_assigned student) = st"

definition replay :: "event list \<Rightarrow> grouping" where
  "replay evs = foldl apply_event fresh_state evs"

text \<open>No station 1..8 holds more than three students.\<close>

definition capacity_ok :: "grouping \<Rightarrow> bool" where
  "capacity_ok st = (\<forall>s \<in> {1..8}. length (st s) \<le> 3)"

text \<open>The students in the stations 1..8, and all students of a dictionary.\<close>

definition placed :: "grouping \<Rightarrow> nat list" where
  "placed st = concat (map st [1..<9])"

definition all_items :: "grouping \<Rightarrow> nat list" where
  "all_items st = concat (map st station_keys)"


text \<open>
  The invariant of a run: the new state is the replay of the log, every prefix of the
  log replays to a state within capacity, and every placement went to a station 1..8
  that held fewer than three students.
\<close>

definition consistent :: "run \<Rightarrow> bool" where
  "consistent r \<longleftrightarrow>
     new_state r = replay (log r) \<and>
     (\<forall>n \<le> length (log r). capacity_ok (replay (take n (log r)))) \<and>
     (\<forall>n < length (log r). \<forall>x s. log r ! n = Assigned x s \<longrightarrow>
        1 \<le> s \<and> s \<le> 8 \<and> length (replay (take n (log r)) s) < 3)"

text \<open>What a loop that places every student of a list leaves behind.\<close>

definition all_placed :: "nat list \<Rightarrow> run \<Rightarrow> run \<Rightarrow> bool" where
  "all_placed studs r r' \<longleftrightarrow>
     capacity_ok (new_state r') \<and>
     mset (placed (new_state r')) = mset (placed (new_state r)) + mset studs \<and>
     new_state r' 0 = new_state r 0 \<and>
     {x. Not_assigned x \<in> set (log r')} = {x. Not_assigned x \<in> set (log r)}"

section \<open>Properties\<close>

subsection \<open>Key lists\<close>

lemma upt_1_9: "[1..<9] = [1, 2, 3, 4, 5, 6, 7, 8::nat]"
  by (simp add: upt_rec)

lemma keys_list: "station_keys = [0, 1, 2, 3, 4, 5, 6, 7, 8]"
  by (simp add: station_keys_def upt_rec)


subsection \<open>Decoding the last column\<close>

lemma letters_no_digits: "digit_val 97 = None" "digit_val 98 = None" "digit_val 99 = None"
  by (simp_all add: digit_val_def digit_zeros_def)

lemma letters_no_spaces: "\<not> is_space 97" "\<not> is_space 99"
  by (simp_all add: is_space_def space_points_def)

lemma abc_points: "utf8_decode (map of_char ''abc'') = [97, 98, 99]"
  by (simp add: lead_def)

lemma abc_no_literal: "int_of_points [97, 98, 99] = None"
  by (simp add: int_of_points_def strip_def digits_value_def max_str_digits_def
      letters_no_digits letters_no_spaces)

lemma int_of_str_abc: "int_of_str ''abc'' = None"
  unfolding int_of_str_def abc_points by (rule abc_no_literal)








text \<open>
  C8. Decoding the column \<^verbatim>\<open>[1, "abc", 0, 9, null, 3]\<close> returns: group 0 holds the
  rows 2 and 4, group 1 holds row 0, group 3 holds row 5, every other group is empty
  (so the rows 1 and 3 are in no group); the one warning is for row 1.
\<close>

theorem decode_test_vector:
  "collect_previous_state [IntV 1, StrV ''abc'', IntV 0, IntV 9, Null, IntV 3] fresh_state =
     Inr (fresh_state(1 := [0], 0 := [2, 4], 3 := [5]), [Not_a_number (StrV ''abc'') 1])"
  by (simp add: collect_previous_state_def row_key_def isnull_def has_key_def keys_list
      int_of_str_abc fresh_state_def eval_nat_numeral)


text \<open>
  C5. The claim has every row whose value is an integer outside 0..8 warned about, and
  the decoding never raise. Evaluated on the code: the column \<^verbatim>\<open>[9]\<close> is decoded
  to empty groups with no warning at all, and the column holding an infinite float
  leaves the loop with \<^verbatim>\<open>OverflowError\<close>, which the \<^verbatim>\<open>except\<close> clause does
  not name.
\<close>

theorem decode_out_of_range_silent:
  "collect_previous_state [IntV 9] fresh_state = Inr (fresh_state, []) \<and>
   collect_previous_state [InfV] fresh_state = Inl OverflowError"
  by (simp add: collect_previous_state_def row_key_def isnull_def has_key_def keys_list)





subsection \<open>Encoding the new state\<close>

lemma write_indices_ok:
  "\<forall>i \<in> set indices. i < length cv \<Longrightarrow>
   \<exists>cv'. write_indices key indices cv = Inr cv' \<and> length cv' = length cv \<and>
     (\<forall>i < length cv. cv' ! i = (if i \<in> set indices then key else cv ! i))"
proof (induction indices arbitrary: cv)
  case Nil
  then show ?case by simp
next
  case (Cons index indices)
  let ?cv1 = "cv[index := key]"
  have "\<forall>i \<in> set indices. i < length ?cv1" using Cons.prems by simp
  from Cons.IH [OF this] obtain cv' where
    w: "write_indices key indices ?cv1 = Inr cv'" and
    len: "length cv' = length cv" and
    nth: "\<forall>i < length cv. cv' ! i = (if i \<in> set indices then key else ?cv1 ! i)"
    by auto
  have "write_indices key (index # indices) cv = Inr cv'"
    using Cons.prems w by simp
  moreover have "\<forall>i < length cv. cv' ! i = (if i \<in> set (index # indices) then key else cv ! i)"
    using nth by (auto simp: nth_list_update)
  ultimately show ?case using len by blast
qed

lemma write_groups_ok:
  assumes "\<forall>k g i. (k, g) \<in> set d \<longrightarrow> i \<in> set g \<longrightarrow> i < length cv"
    and "\<forall>k g k' g' i. (k, g) \<in> set d \<longrightarrow> (k', g') \<in> set d \<longrightarrow> i \<in> set g \<longrightarrow>
           i \<in> set g' \<longrightarrow> k = k'"
  shows "\<exists>cv'. write_groups d cv = Inr cv' \<and> length cv' = length cv \<and>
     (\<forall>i < length cv. (\<forall>k g. (k, g) \<in> set d \<longrightarrow> i \<notin> set g) \<longrightarrow> cv' ! i = cv ! i) \<and>
     (\<forall>k g i. (k, g) \<in> set d \<longrightarrow> i \<in> set g \<longrightarrow> cv' ! i = k)"
  using assms
proof (induction d arbitrary: cv)
  case Nil
  then show ?case by simp
next
  case (Cons kg d)
  obtain k g where kg: "kg = (k, g)" by (cases kg)
  have g_len: "i < length cv" if "i \<in> set g" for i
    using Cons.prems(1) that by (simp add: kg)
  then have "\<forall>i \<in> set g. i < length cv" by blast
  from write_indices_ok [OF this, of k] obtain cv1 where
    w1: "write_indices k g cv = Inr cv1" and
    len1: "length cv1 = length cv" and
    nth1: "\<forall>i < length cv. cv1 ! i = (if i \<in> set g then k else cv ! i)"
    by auto
  have b: "\<forall>k' g' i. (k', g') \<in> set d \<longrightarrow> i \<in> set g' \<longrightarrow> i < length cv1"
    using Cons.prems(1) len1 by simp
  have dj: "\<forall>k1 g1 k2 g2 i. (k1, g1) \<in> set d \<longrightarrow> (k2, g2) \<in> set d \<longrightarrow> i \<in> set g1 \<longrightarrow>
           i \<in> set g2 \<longrightarrow> k1 = k2"
    using Cons.prems(2) by simp
  from Cons.IH [OF b dj] obtain cv' where
    w: "write_groups d cv1 = Inr cv'" and
    len: "length cv' = length cv1" and
    keep: "\<forall>i < length cv1. (\<forall>k g. (k, g) \<in> set d \<longrightarrow> i \<notin> set g) \<longrightarrow> cv' ! i = cv1 ! i" and
    hit: "\<forall>k g i. (k, g) \<in> set d \<longrightarrow> i \<in> set g \<longrightarrow> cv' ! i = k"
    by blast
  have run: "write_groups (kg # d) cv = Inr cv'"
    using w1 w by (simp add: kg)
  have untouched: "cv' ! i = cv ! i"
    if "i < length cv" "\<forall>k g. (k, g) \<in> set (kg # d) \<longrightarrow> i \<notin> set g" for i
  proof -
    have "i \<notin> set g" using that(2) by (simp add: kg)
    moreover have "\<forall>k g. (k, g) \<in> set d \<longrightarrow> i \<notin> set g" using that(2) by simp
    ultimately show ?thesis using keep nth1 len1 that(1) by simp
  qed
  have head: "cv' ! i = k" if i: "i \<in> set g" for i
  proof (cases "\<forall>k' g'. (k', g') \<in> set d \<longrightarrow> i \<notin> set g'")
    case True
    then have "cv' ! i = cv1 ! i" using keep g_len [OF i] len1 by simp
    then show ?thesis using nth1 g_len [OF i] i by simp
  next
    case False
    then obtain k' g' where in_d: "(k', g') \<in> set d" and i': "i \<in> set g'" by blast
    have "(k, g) \<in> set (kg # d)" "(k', g') \<in> set (kg # d)" using in_d by (simp_all add: kg)
    then have "k = k'" using Cons.prems(2) i i' by blast
    then show ?thesis using hit in_d i' by blast
  qed
  have all: "cv' ! i = k'" if "(k', g') \<in> set (kg # d)" "i \<in> set g'" for k' g' i
  proof (cases "(k', g') = (k, g)")
    case True
    then show ?thesis using head that(2) by simp
  next
    case False
    then have "(k', g') \<in> set d" using that(1) by (auto simp: kg)
    then show ?thesis using hit that(2) by blast
  qed
  have l: "length cv' = length cv" using len len1 by simp
  have u: "\<forall>i < length cv. (\<forall>k g. (k, g) \<in> set (kg # d) \<longrightarrow> i \<notin> set g) \<longrightarrow> cv' ! i = cv ! i"
    using untouched by blast
  have a: "\<forall>k g i. (k, g) \<in> set (kg # d) \<longrightarrow> i \<in> set g \<longrightarrow> cv' ! i = k"
    using all by blast
  show ?case using run l u a by blast
qed

text \<open>
  C9. For the items of a dictionary whose indices are all below the row count \<open>n\<close>
  and in which no index stands in the groups of two different keys (the uniqueness of
  a grouping), \<^verbatim>\<open>convert_state_to_column\<close> returns a list of exactly \<open>n\<close>
  values that is 0 at every index in no group and the key \<open>k\<close> at every index listed
  in the group of \<open>k\<close>; and \<^verbatim>\<open>{1: [0, 2], 2: [1]}\<close> with four rows gives
  \<^verbatim>\<open>[1, 2, 1, 0]\<close>.
\<close>

theorem encode_correct:
  assumes "\<forall>k g i. (k, g) \<in> set state_items \<longrightarrow> i \<in> set g \<longrightarrow> i < n"
    and "\<forall>k g k' g' i. (k, g) \<in> set state_items \<longrightarrow> (k', g') \<in> set state_items \<longrightarrow>
           i \<in> set g \<longrightarrow> i \<in> set g' \<longrightarrow> k = k'"
  shows "(\<exists>column. convert_state_to_column n state_items = Inr column \<and> length column = n \<and>
           (\<forall>i < n. (\<forall>k g. (k, g) \<in> set state_items \<longrightarrow> i \<notin> set g) \<longrightarrow> column ! i = 0) \<and>
           (\<forall>k g i. (k, g) \<in> set state_items \<longrightarrow> i \<in> set g \<longrightarrow> column ! i = k)) \<and>
         convert_state_to_column 4 [(1, [0, 2]), (2, [1])] = Inr [1, 2, 1, 0]"
proof -
  have ex: "convert_state_to_column 4 [(1, [0, 2]), (2, [1])] = Inr [1, 2, 1, 0]"
    by (simp add: convert_state_to_column_def eval_nat_numeral)
  have "\<forall>k g i. (k, g) \<in> set state_items \<longrightarrow> i \<in> set g \<longrightarrow> i < length (replicate n (0::nat))"
    using assms(1) by simp
  from write_groups_ok [OF this assms(2)] obtain cv' where
    w: "write_groups state_items (replicate n 0) = Inr cv'" and
    len: "length cv' = n" and
    keep: "\<forall>i < n. (\<forall>k g. (k, g) \<in> set state_items \<longrightarrow> i \<notin> set g) \<longrightarrow>
             cv' ! i = replicate n 0 ! i" and
    hit: "\<forall>k g i. (k, g) \<in> set state_items \<longrightarrow> i \<in> set g \<longrightarrow> cv' ! i = k"
    by auto
  have "\<forall>i < n. (\<forall>k g. (k, g) \<in> set state_items \<longrightarrow> i \<notin> set g) \<longrightarrow> cv' ! i = 0"
    using keep by simp
  then show ?thesis using ex w len hit unfolding convert_state_to_column_def by blast
qed

theorem encode_correct_witness:
  "\<exists>column. convert_state_to_column 5 (items (fresh_state(2 := [0, 3], 7 := [1]))) = Inr column \<and>
     length column = 5 \<and> column ! 0 = 2 \<and> column ! 3 = 2 \<and> column ! 1 = 7 \<and>
     column ! 2 = 0 \<and> column ! 4 = 0"
proof -
  let ?d = "items (fresh_state(2 := [0, 3], 7 := [1]))"
  have d: "?d = [(0, []), (1, []), (2, [0, 3]), (3, []), (4, []), (5, []), (6, []), (7, [1]), (8, [])]"
    by (simp add: items_def station_keys_def upt_rec fresh_state_def)
  have a: "\<forall>k g i. (k, g) \<in> set ?d \<longrightarrow> i \<in> set g \<longrightarrow> i < 5" unfolding d by auto
  have b: "\<forall>k g k' g' i. (k, g) \<in> set ?d \<longrightarrow> (k', g') \<in> set ?d \<longrightarrow>
             i \<in> set g \<longrightarrow> i \<in> set g' \<longrightarrow> k = k'"
    unfolding d by auto
  from encode_correct [OF a b] obtain column where
    c: "convert_state_to_column 5 ?d = Inr column" "length column = 5" and
    keep: "\<forall>i < 5. (\<forall>k g. (k, g) \<in> set ?d \<longrightarrow> i \<notin> set g) \<longrightarrow> column ! i = 0" and
    hit: "\<forall>k g i. (k, g) \<in> set ?d \<longrightarrow> i \<in> set g \<longrightarrow> column ! i = k"
    by blast
  have "column ! 0 = 2" "column ! 3 = 2" "column ! 1 = 7" using hit unfolding d by simp_all
  moreover have "column ! 2 = 0" "column ! 4 = 0" using keep unfolding d by auto
  ultimately show ?thesis using c by blast
qed

subsection \<open>The random search\<close>

declare random_retry.simps [simp del]

declare assign_retry.simps [simp del]

lemma first_free_None_iff:
  "first_free lst = None \<longleftrightarrow> (\<forall>s \<in> {1..8}. 3 \<le> length (lst s))"
  by (auto simp: first_free_def find_None_iff not_less)

lemma first_free_Some:
  assumes "first_free lst = Some s"
  shows "1 \<le> s \<and> s \<le> 8 \<and> length (lst s) < 3 \<and> (\<forall>t. 1 \<le> t \<and> t < s \<longrightarrow> 3 \<le> length (lst t))"
proof -
  from assms obtain i where i: "i < 8" "length (lst ([1..<9] ! i)) < 3" "s = [1..<9] ! i"
    "\<forall>j < i. \<not> length (lst ([1..<9] ! j)) < 3"
    by (auto simp: first_free_def find_Some_iff)
  have s: "s = 1 + i" using i(1,3) by simp
  have "3 \<le> length (lst t)" if "1 \<le> t" "t < s" for t
  proof -
    have "t - 1 < i" using that s by simp
    then have "\<not> length (lst ([1..<9] ! (t - 1))) < 3" using i(4) by blast
    moreover have "[1..<9] ! (t - 1) = t" using that s i(1) by simp
    ultimately show ?thesis by simp
  qed
  then show ?thesis using i(1,2) s by simp
qed

lemma random_retry_props:
  "random_retry rs lst a k p = (a', p') \<Longrightarrow>
   p \<le> p' \<and> p' \<le> p + (8 - k) \<and>
   (a' = a \<and> p' = p \<or> p < p' \<and> a' = rs (p' - 1) \<and> length (lst a) = 3) \<and>
   (\<forall>q. p \<le> q \<and> q < p' - 1 \<longrightarrow> length (lst (rs q)) = 3) \<and>
   (length (lst a') = 3 \<longrightarrow> 8 \<le> k + (p' - p))"
proof (induction rs lst a k p rule: random_retry.induct)
  case (1 rs lst a k p)
  show ?case
  proof (cases "length (lst a) = 3 \<and> k < 8")
    case True
    then have call: "random_retry rs lst (rs p) (k + 1) (Suc p) = (a', p')"
      using "1.prems" by (simp add: random_retry.simps [of rs lst a k p] randomize_def)
    have ih: "Suc p \<le> p' \<and> p' \<le> Suc p + (8 - (k + 1)) \<and>
       (a' = rs p \<and> p' = Suc p \<or> Suc p < p' \<and> a' = rs (p' - 1) \<and> length (lst (rs p)) = 3) \<and>
       (\<forall>q. Suc p \<le> q \<and> q < p' - 1 \<longrightarrow> length (lst (rs q)) = 3) \<and>
       (length (lst a') = 3 \<longrightarrow> 8 \<le> k + 1 + (p' - Suc p))"
      using "1.IH" [OF True, unfolded randomize_def fst_conv snd_conv, OF call] .
    have early: "length (lst (rs q)) = 3" if "p \<le> q" "q < p' - 1" for q
    proof (cases "q = p")
      case True
      then have "Suc p < p'" using that by simp
      then show ?thesis using ih True by auto
    next
      case False
      then show ?thesis using ih that by simp
    qed
    show ?thesis using ih True early by auto
  next
    case False
    then have "a' = a" "p' = p"
      using "1.prems" by (auto simp: random_retry.simps [of rs lst a k p])
    then show ?thesis using False by auto
  qed
qed

lemma fra_raises:
  "first_free lst = None \<Longrightarrow> find_random_available rs lst p = (Inl ValueError, p)"
  by (simp add: find_random_available_def)

lemma fra_returns:
  assumes free: "first_free lst \<noteq> None"
  shows "\<exists>s p'. find_random_available rs lst p = (Inr s, p') \<and> length (lst s) \<noteq> 3 \<and>
     p < p' \<and> p' \<le> p + 9 \<and> (\<forall>q. p \<le> q \<and> q < p' - 1 \<longrightarrow> length (lst (rs q)) = 3) \<and>
     (s = rs (p' - 1) \<or>
      p' = p + 9 \<and> length (lst (rs (p + 8))) = 3 \<and> first_free lst = Some s)"
proof -
  obtain a' p' where rr: "random_retry rs lst (rs p) 0 (Suc p) = (a', p')"
    by (cases "random_retry rs lst (rs p) 0 (Suc p)")
  from random_retry_props [OF rr] have
    b: "Suc p \<le> p'" "p' \<le> Suc p + 8" and
    last: "a' = rs p \<and> p' = Suc p \<or> Suc p < p' \<and> a' = rs (p' - 1) \<and> length (lst (rs p)) = 3" and
    early: "\<forall>q. Suc p \<le> q \<and> q < p' - 1 \<longrightarrow> length (lst (rs q)) = 3" and
    full: "length (lst a') = 3 \<longrightarrow> 8 \<le> p' - Suc p"
    by auto
  have a': "a' = rs (p' - 1)" using last by auto
  have early': "length (lst (rs q)) = 3" if "p \<le> q" "q < p' - 1" for q
  proof (cases "q = p")
    case True
    then show ?thesis using last that by auto
  next
    case False
    then show ?thesis using early that by simp
  qed
  obtain t where t: "first_free lst = Some t" using free by auto
  show ?thesis
  proof (cases "length (lst a') = 3")
    case True
    then have p': "p' = p + 9" using full b by simp
    have "find_random_available rs lst p = (Inr t, p')"
      using True t rr by (simp add: find_random_available_def randomize_def)
    moreover have "length (lst t) \<noteq> 3" using first_free_Some [OF t] by simp
    moreover have "length (lst (rs (p + 8))) = 3" using True a' p' by (simp add: add.commute)
    ultimately show ?thesis using p' t early' by auto
  next
    case False
    then have "find_random_available rs lst p = (Inr a', p')"
      using t rr by (simp add: find_random_available_def randomize_def)
    then show ?thesis using False a' b early' by auto
  qed
qed

lemma fra_station:
  assumes "valid_draws rs" and "find_random_available rs lst p = (Inr s, p')"
  shows "1 \<le> s \<and> s \<le> 8 \<and> length (lst s) \<noteq> 3"
proof -
  have free: "first_free lst \<noteq> None"
    using assms(2) fra_raises [of lst rs p] by auto
  from fra_returns [OF free, of rs p] assms(2) have
    "length (lst s) \<noteq> 3" and "s = rs (p' - 1) \<or> first_free lst = Some s"
    by auto
  then show ?thesis
    using assms(1) first_free_Some [of lst s] by (auto simp: valid_draws_def)
qed


lemma constant_valid: "valid_draws (\<lambda>p. 1)"
  by (simp add: valid_draws_def)


subsection \<open>The capacity invariant\<close>

lemma replay_snoc: "replay (evs @ [e]) = apply_event (replay evs) e"
  by (simp add: replay_def)

lemma consistent_start: "consistent start"
  by (simp add: consistent_def start_def replay_def capacity_ok_def fresh_state_def)

lemma consistent_pos: "consistent (r\<lparr>pos := p\<rparr>) = consistent r"
  by (simp add: consistent_def)

lemma consistent_capacity: "consistent r \<Longrightarrow> capacity_ok (new_state r)"
  unfolding consistent_def by (metis order_refl take_all)

lemma capacity_ok_append:
  "capacity_ok st \<Longrightarrow> length (st s) < 3 \<Longrightarrow> capacity_ok (st(s := st s @ [x]))"
  by (auto simp: capacity_ok_def)

lemma consistent_extend:
  assumes c: "consistent r"
    and st: "st' = apply_event (new_state r) e"
    and cap: "capacity_ok st'"
    and e: "\<forall>x s. e = Assigned x s \<longrightarrow> 1 \<le> s \<and> s \<le> 8 \<and> length (new_state r s) < 3"
  shows "consistent (r\<lparr>new_state := st', log := log r @ [e], pos := p\<rparr>)"
proof -
  let ?l = "log r @ [e]"
  have ns: "new_state r = replay (log r)" using c by (simp add: consistent_def)
  have full: "replay ?l = st'" using st ns by (simp add: replay_snoc)
  have caps: "capacity_ok (replay (take n ?l))" if "n \<le> length ?l" for n
  proof (cases "n \<le> length (log r)")
    case True
    then show ?thesis using c by (simp add: consistent_def)
  next
    case False
    then have "take n ?l = ?l" using that by simp
    then show ?thesis using full cap by simp
  qed
  have ev: "1 \<le> s \<and> s \<le> 8 \<and> length (replay (take n ?l) s) < 3"
    if "n < length ?l" "?l ! n = Assigned x s" for n x s
  proof (cases "n < length (log r)")
    case True
    then have "log r ! n = Assigned x s" using that(2) by (simp add: nth_append)
    then show ?thesis using c True by (simp add: consistent_def)
  next
    case False
    then have n: "n = length (log r)" using that(1) by simp
    then have "e = Assigned x s" using that(2) by simp
    then show ?thesis using e n ns by simp
  qed
  show ?thesis
    unfolding consistent_def using full caps ev by simp
qed

lemma consistent_note:
  assumes "consistent r" and "\<forall>x s. e \<noteq> Assigned x s"
  shows "consistent (r\<lparr>log := log r @ [e]\<rparr>)"
proof -
  have st: "new_state r = apply_event (new_state r) e"
    using assms(2) by (cases e) auto
  have "consistent (r\<lparr>new_state := new_state r, log := log r @ [e], pos := pos r\<rparr>)"
    using assms consistent_capacity [OF assms(1)] st
    by (intro consistent_extend) auto
  then show ?thesis by simp
qed

lemma consistent_place:
  assumes "consistent r" and "1 \<le> s" and "s \<le> 8" and "length (new_state r s) < 3"
  shows "consistent (place x s p r)"
  unfolding place_def
  using assms consistent_capacity [OF assms(1)]
  by (intro consistent_extend) (auto intro: capacity_ok_append)

lemma capacity_lt:
  assumes "capacity_ok st" and "1 \<le> s" and "s \<le> 8" and "length (st s) \<noteq> 3"
  shows "length (st s) < 3"
proof -
  have "s \<in> {1..8}" using assms(2,3) by simp
  then have "length (st s) \<le> 3" using assms(1) unfolding capacity_ok_def by blast
  then show ?thesis using assms(4) by simp
qed

lemma place_free_consistent:
  "valid_draws rs \<Longrightarrow> consistent r \<Longrightarrow> consistent (snd (place_free rs studs r))"
proof (induction studs arbitrary: r)
  case Nil
  then show ?case by simp
next
  case (Cons x studs)
  obtain res p' where f: "find_random_available rs (new_state r) (pos r) = (res, p')"
    by (cases "find_random_available rs (new_state r) (pos r)")
  show ?case
  proof (cases res)
    case (Inl e)
    then show ?thesis using f Cons.prems by (simp add: consistent_pos)
  next
    case (Inr s)
    from fra_station [OF Cons.prems(1)] f Inr
    have s: "1 \<le> s" "s \<le> 8" "length (new_state r s) \<noteq> 3" by auto
    then have "length (new_state r s) < 3"
      using capacity_lt consistent_capacity [OF Cons.prems(2)] by blast
    then have "consistent (place x s p' r)"
      using consistent_place Cons.prems(2) s by blast
    then show ?thesis using f Inr Cons.IH [OF Cons.prems(1)] by simp
  qed
qed

lemma assign_retry_station:
  "valid_draws rs \<Longrightarrow> 1 \<le> a \<and> a \<le> 8 \<and> length (st a) \<noteq> 3 \<Longrightarrow>
   assign_retry rs g st a k p = (Inr s, p') \<Longrightarrow> 1 \<le> s \<and> s \<le> 8 \<and> length (st s) \<noteq> 3"
proof (induction rs g st a k p rule: assign_retry.induct)
  case (1 rs g st a k p)
  show ?case
  proof (cases "\<not> check_not_in_list g (st a) \<and> k < 15")
    case True
    obtain res q where f: "find_random_available rs st p = (res, q)"
      by (cases "find_random_available rs st p")
    show ?thesis
    proof (cases res)
      case (Inl e)
      then show ?thesis
        using "1.prems"(3) True f by (simp add: assign_retry.simps [of rs g st a k p])
    next
      case (Inr b)
      have call: "assign_retry rs g st b (k + 1) q = (Inr s, p')"
        using "1.prems"(3) True f Inr by (simp add: assign_retry.simps [of rs g st a k p])
      have b: "1 \<le> b \<and> b \<le> 8 \<and> length (st b) \<noteq> 3"
        using fra_station [OF "1.prems"(1)] f Inr by blast
      show ?thesis
        using "1.IH" [OF True f [symmetric] _ "1.prems"(1) b call] Inr by simp
    qed
  next
    case False
    then have "s = a"
      using "1.prems"(3) by (auto simp: assign_retry.simps [of rs g st a k p])
    then show ?thesis using "1.prems"(2) by simp
  qed
qed

lemma assign_station_station:
  assumes "valid_draws rs" and "assign_station_for_student rs x g st p = (Inr s, p')"
  shows "1 \<le> s \<and> s \<le> 8 \<and> length (st s) \<noteq> 3"
proof -
  obtain res q where f: "find_random_available rs st p = (res, q)"
    by (cases "find_random_available rs st p")
  show ?thesis
  proof (cases res)
    case (Inl e)
    then show ?thesis using assms(2) f by (simp add: assign_station_for_student_def)
  next
    case (Inr a)
    then have "assign_retry rs g st a 0 q = (Inr s, p')"
      using assms(2) f by (simp add: assign_station_for_student_def)
    moreover have "1 \<le> a \<and> a \<le> 8 \<and> length (st a) \<noteq> 3"
      using fra_station [OF assms(1)] f Inr by blast
    ultimately show ?thesis using assign_retry_station [OF assms(1)] by blast
  qed
qed

lemma place_constrained_consistent:
  "valid_draws rs \<Longrightarrow> consistent r \<Longrightarrow> consistent (snd (place_constrained rs g studs r))"
proof (induction studs arbitrary: r)
  case Nil
  then show ?case by simp
next
  case (Cons x studs)
  obtain res p' where f: "assign_station_for_student rs x g (new_state r) (pos r) = (res, p')"
    by (cases "assign_station_for_student rs x g (new_state r) (pos r)")
  show ?case
  proof (cases res)
    case (Inl e)
    have "consistent (r\<lparr>log := log r @ [Not_assigned x]\<rparr>)"
      using consistent_note [OF Cons.prems(2)] by simp
    then have "consistent (r\<lparr>log := log r @ [Not_assigned x], pos := p'\<rparr>)"
      by (simp add: consistent_pos)
    then show ?thesis
      using f Inl Cons.IH [OF Cons.prems(1)] Cons.prems(2) by (simp add: consistent_pos)
  next
    case (Inr s)
    from assign_station_station [OF Cons.prems(1)] f Inr
    have s: "1 \<le> s" "s \<le> 8" "length (new_state r s) \<noteq> 3" by auto
    then have "length (new_state r s) < 3"
      using capacity_lt consistent_capacity [OF Cons.prems(2)] by blast
    then have "consistent (place x s p' r)"
      using consistent_place Cons.prems(2) s by blast
    then show ?thesis using f Inr Cons.IH [OF Cons.prems(1)] by simp
  qed
qed

lemma distribute_groups_consistent:
  "valid_draws rs \<Longrightarrow> consistent r \<Longrightarrow>
   consistent (snd (distribute_groups rs previous_state keys r))"
proof (induction keys arbitrary: r)
  case Nil
  then show ?case by simp
next
  case (Cons key keys)
  let ?r1 = "r\<lparr>log := log r @ [Group_header key (previous_state key)]\<rparr>"
  have r1: "consistent ?r1" using consistent_note [OF Cons.prems(2)] by simp
  show ?case
  proof (cases "previous_state key = []")
    case True
    then show ?thesis using Cons by simp
  next
    case False
    let ?step = "if key \<noteq> 0
      then place_constrained rs (previous_state key) (previous_state key) ?r1
      else place_free rs (previous_state key) ?r1"
    obtain e r' where step: "?step = (e, r')" by (cases ?step)
    have r': "consistent r'"
    proof (cases "key = 0")
      case True
      then show ?thesis using step place_free_consistent [OF Cons.prems(1) r1] by (metis snd_conv)
    next
      case False
      then show ?thesis
        using step place_constrained_consistent [OF Cons.prems(1) r1] by (metis snd_conv)
    qed
    show ?thesis
    proof (cases e)
      case None
      then show ?thesis
        using False step Cons.IH [OF Cons.prems(1) r'] by (simp del: place_free.simps place_constrained.simps)
    next
      case (Some err)
      then show ?thesis using False step r' by (simp del: place_free.simps place_constrained.simps)
    qed
  qed
qed

text \<open>
  C1. With draws in 1..8 and any previous state, for the run of the allocation from the
  empty new state: the new state at the end is the replay of the whole log; after every
  prefix of the log (that is, at every moment of the run, each placement included)
  every station 1..8 holds at most three students; every placement in the log goes to
  a station 1..8 that held fewer than three students just before it; and at the end
  every station 1..8 holds at most three.
\<close>

theorem capacity_invariant:
  assumes "valid_draws rs"
  shows "new_state (snd (allocate rs previous_state)) = replay (log (snd (allocate rs previous_state))) \<and>
    (\<forall>n \<le> length (log (snd (allocate rs previous_state))).
       \<forall>s \<in> {1..8}. length (replay (take n (log (snd (allocate rs previous_state)))) s) \<le> 3) \<and>
    (\<forall>n < length (log (snd (allocate rs previous_state))). \<forall>x s.
       log (snd (allocate rs previous_state)) ! n = Assigned x s \<longrightarrow>
       1 \<le> s \<and> s \<le> 8 \<and> length (replay (take n (log (snd (allocate rs previous_state)))) s) < 3) \<and>
    (\<forall>s \<in> {1..8}. length (new_state (snd (allocate rs previous_state)) s) \<le> 3)"
proof -
  let ?r = "snd (allocate rs previous_state)"
  have c: "consistent ?r"
    unfolding allocate_def distribute_students_def
    by (rule distribute_groups_consistent [OF assms consistent_start])
  have "capacity_ok (new_state ?r)" by (rule consistent_capacity [OF c])
  then show ?thesis using c unfolding consistent_def capacity_ok_def by blast
qed

theorem capacity_invariant_witness:
  "valid_draws (\<lambda>p. 1) \<and>
   log (snd (allocate (\<lambda>p. 1) (fresh_state(0 := [7], 2 := [5])))) ! 3 = Assigned 5 1 \<and>
   length (replay (take 3 (log (snd (allocate (\<lambda>p. 1) (fresh_state(0 := [7], 2 := [5])))))) 1) < 3 \<and>
   length (replay (take 2 (log (snd (allocate (\<lambda>p. 1) (fresh_state(0 := [7], 2 := [5])))))) 1) \<le> 3 \<and>
   length (new_state (snd (allocate (\<lambda>p. 1) (fresh_state(0 := [7], 2 := [5])))) 1) \<le> 3"
proof -
  let ?r = "snd (allocate (\<lambda>p. 1) (fresh_state(0 := [7], 2 := [5])))"
  have l: "log ?r = [Group_header 0 [7], Assigned 7 1, Group_header 2 [5], Assigned 5 1]"
    by code_simp
  have n: "(3::nat) < length (log ?r)" "(2::nat) \<le> length (log ?r)" "log ?r ! 3 = Assigned 5 1"
    unfolding l by simp_all
  have one: "(1::nat) \<in> {1..8}" by simp
  note inv = capacity_invariant [OF constant_valid, of "fresh_state(0 := [7], 2 := [5])"]
  have "length (replay (take 3 (log ?r)) 1) < 3" using inv n(1,3) by blast
  moreover have "length (replay (take 2 (log ?r)) 1) \<le> 3" using inv n(2) one by blast
  moreover have "length (new_state ?r 1) \<le> 3" using inv one by blast
  ultimately show ?thesis using constant_valid n(3) by blast
qed

subsection \<open>Conservation\<close>

lemma capacity_full:
  assumes "capacity_ok st" and "first_free st = None"
  shows "length (placed st) = 24"
proof -
  have "\<forall>s \<in> {1..8}. length (st s) = 3"
    using assms unfolding capacity_ok_def first_free_None_iff by (simp add: le_antisym)
  then show ?thesis unfolding placed_def upt_1_9 by simp
qed

lemma mset_concat_update:
  "distinct ks \<Longrightarrow> s \<in> set ks \<Longrightarrow> f' s = f s @ [x] \<Longrightarrow> \<forall>k. k \<noteq> s \<longrightarrow> f' k = f k \<Longrightarrow>
   mset (concat (map f' ks)) = add_mset x (mset (concat (map f ks)))"
proof (induction ks)
  case Nil
  then show ?case by simp
next
  case (Cons k ks)
  show ?case
  proof (cases "k = s")
    case True
    then have "s \<notin> set ks" using Cons.prems(1) by simp
    then have "map f' ks = map f ks" using Cons.prems(4) by (auto simp: map_eq_conv)
    then have "concat (map f' ks) = concat (map f ks)" by (rule arg_cong)
    then show ?thesis using True Cons.prems(3) by simp
  next
    case False
    then show ?thesis using Cons by simp
  qed
qed

lemma placed_append:
  assumes "1 \<le> s" and "s \<le> 8"
  shows "mset (placed (st(s := st s @ [x]))) = add_mset x (mset (placed st))"
proof -
  have "distinct [1..<9::nat]" "s \<in> set [1..<9]" using assms by simp_all
  then show ?thesis unfolding placed_def by (rule mset_concat_update) simp_all
qed

lemma assign_retry_returns:
  "first_free st \<noteq> None \<Longrightarrow> \<exists>s p'. assign_retry rs g st a k p = (Inr s, p')"
proof (induction rs g st a k p rule: assign_retry.induct)
  case (1 rs g st a k p)
  show ?case
  proof (cases "\<not> check_not_in_list g (st a) \<and> k < 15")
    case True
    from fra_returns [OF "1.prems", of rs p] obtain b q where
      f: "find_random_available rs st p = (Inr b, q)" by blast
    from "1.IH" [OF True f [symmetric] _ "1.prems"] obtain s p' where
      "assign_retry rs g st b (k + 1) q = (Inr s, p')" by auto
    then show ?thesis using True f by (simp add: assign_retry.simps [of rs g st a k p])
  next
    case False
    then show ?thesis by (auto simp: assign_retry.simps [of rs g st a k p])
  qed
qed

lemma assign_station_returns:
  assumes "first_free st \<noteq> None"
  shows "\<exists>s p'. assign_station_for_student rs x g st p = (Inr s, p')"
proof -
  from fra_returns [OF assms, of rs p] obtain a q where
    f: "find_random_available rs st p = (Inr a, q)" by blast
  then show ?thesis
    using assign_retry_returns [OF assms, of rs g a 0 q]
    by (simp add: assign_station_for_student_def)
qed

lemma all_placed_refl: "capacity_ok (new_state r) \<Longrightarrow> all_placed [] r r"
  by (simp add: all_placed_def)

lemma all_placed_step:
  assumes cap: "capacity_ok (new_state r)" and s: "1 \<le> s" "s \<le> 8" "length (new_state r s) \<noteq> 3"
    and rest: "all_placed studs (place x s p r) r'"
  shows "all_placed (x # studs) r r'"
proof -
  have "mset (placed (new_state (place x s p r))) = add_mset x (mset (placed (new_state r)))"
    using placed_append [OF s(1,2)] by (simp add: place_def)
  moreover have "new_state (place x s p r) 0 = new_state r 0"
    using s(1) by (simp add: place_def)
  moreover have "{y. Not_assigned y \<in> set (log (place x s p r))} = {y. Not_assigned y \<in> set (log r)}"
    by (simp add: place_def)
  ultimately show ?thesis using rest by (simp add: all_placed_def)
qed

lemma place_capacity:
  assumes "capacity_ok (new_state r)" and "1 \<le> s" "s \<le> 8" "length (new_state r s) \<noteq> 3"
  shows "capacity_ok (new_state (place x s p r))"
  using capacity_ok_append [OF assms(1) capacity_lt [OF assms]] by (simp add: place_def)

lemma placed_length_place:
  assumes "1 \<le> s" "s \<le> 8"
  shows "length (placed (new_state (place x s p r))) = Suc (length (placed (new_state r)))"
proof -
  have "size (mset (placed (new_state (place x s p r)))) = size (add_mset x (mset (placed (new_state r))))"
    using placed_append [OF assms] by (simp add: place_def)
  then show ?thesis by simp
qed

lemma place_free_conserves:
  "valid_draws rs \<Longrightarrow> capacity_ok (new_state r) \<Longrightarrow>
   length (placed (new_state r)) + length studs \<le> 24 \<Longrightarrow>
   \<exists>r'. place_free rs studs r = (None, r') \<and> all_placed studs r r'"
proof (induction studs arbitrary: r)
  case Nil
  then show ?case by (simp add: all_placed_refl)
next
  case (Cons x studs)
  have "first_free (new_state r) \<noteq> None"
    using capacity_full [OF Cons.prems(2)] Cons.prems(3) by auto
  from fra_returns [OF this, of rs "pos r"] obtain s p' where
    f: "find_random_available rs (new_state r) (pos r) = (Inr s, p')" by blast
  have s: "1 \<le> s" "s \<le> 8" "length (new_state r s) \<noteq> 3"
    using fra_station [OF Cons.prems(1) f] by auto
  have cap: "capacity_ok (new_state (place x s p' r))"
    by (rule place_capacity [OF Cons.prems(2) s])
  have "length (placed (new_state (place x s p' r))) + length studs \<le> 24"
    using Cons.prems(3) placed_length_place [OF s(1,2)] by simp
  from Cons.IH [OF Cons.prems(1) cap this] obtain r' where
    r': "place_free rs studs (place x s p' r) = (None, r')"
        "all_placed studs (place x s p' r) r'" by blast
  have "all_placed (x # studs) r r'"
    by (rule all_placed_step [OF Cons.prems(2) s r'(2)])
  then show ?case using f r'(1) by simp
qed

lemma place_constrained_conserves:
  "valid_draws rs \<Longrightarrow> capacity_ok (new_state r) \<Longrightarrow>
   length (placed (new_state r)) + length studs \<le> 24 \<Longrightarrow>
   \<exists>r'. place_constrained rs g studs r = (None, r') \<and> all_placed studs r r'"
proof (induction studs arbitrary: r)
  case Nil
  then show ?case by (simp add: all_placed_refl)
next
  case (Cons x studs)
  have "first_free (new_state r) \<noteq> None"
    using capacity_full [OF Cons.prems(2)] Cons.prems(3) by auto
  from assign_station_returns [OF this, of rs x g "pos r"] obtain s p' where
    f: "assign_station_for_student rs x g (new_state r) (pos r) = (Inr s, p')" by blast
  have s: "1 \<le> s" "s \<le> 8" "length (new_state r s) \<noteq> 3"
    using assign_station_station [OF Cons.prems(1) f] by auto
  have cap: "capacity_ok (new_state (place x s p' r))"
    by (rule place_capacity [OF Cons.prems(2) s])
  have "length (placed (new_state (place x s p' r))) + length studs \<le> 24"
    using Cons.prems(3) placed_length_place [OF s(1,2)] by simp
  from Cons.IH [OF Cons.prems(1) cap this] obtain r' where
    r': "place_constrained rs g studs (place x s p' r) = (None, r')"
        "all_placed studs (place x s p' r) r'" by blast
  have "all_placed (x # studs) r r'"
    by (rule all_placed_step [OF Cons.prems(2) s r'(2)])
  then show ?case using f r'(1) by simp
qed

lemma all_placed_header:
  "all_placed studs (r\<lparr>log := log r @ [Group_header k g]\<rparr>) r' \<Longrightarrow> all_placed studs r r'"
  by (simp add: all_placed_def)

lemma all_placed_trans:
  "all_placed xs r r1 \<Longrightarrow> all_placed ys r1 r2 \<Longrightarrow> all_placed (xs @ ys) r r2"
  by (simp add: all_placed_def)

lemma distribute_groups_conserves:
  "valid_draws rs \<Longrightarrow> capacity_ok (new_state r) \<Longrightarrow>
   length (placed (new_state r)) + length (concat (map previous_state keys)) \<le> 24 \<Longrightarrow>
   \<exists>r'. distribute_groups rs previous_state keys r = (None, r') \<and>
        all_placed (concat (map previous_state keys)) r r'"
proof (induction keys arbitrary: r)
  case Nil
  then show ?case by (simp add: all_placed_refl)
next
  case (Cons key keys)
  let ?g = "previous_state key"
  let ?r1 = "r\<lparr>log := log r @ [Group_header key ?g]\<rparr>"
  show ?case
  proof (cases "?g = []")
    case True
    then show ?thesis using Cons by simp
  next
    case False
    have cap1: "capacity_ok (new_state ?r1)" using Cons.prems(2) by simp
    have len1: "length (placed (new_state ?r1)) + length ?g \<le> 24" using Cons.prems(3) by simp
    let ?step = "if key \<noteq> 0 then place_constrained rs ?g ?g ?r1 else place_free rs ?g ?r1"
    have "\<exists>r2. ?step = (None, r2) \<and> all_placed ?g ?r1 r2"
    proof (cases "key = 0")
      case True
      then show ?thesis
        using place_free_conserves [OF Cons.prems(1) cap1 len1] by (simp only: if_False simp_thms)
    next
      case False
      then show ?thesis
        using place_constrained_conserves [OF Cons.prems(1) cap1 len1, of ?g]
        by (simp only: if_True simp_thms)
    qed
    then obtain r2 where step: "?step = (None, r2)" and p2: "all_placed ?g ?r1 r2" by blast
    have p2': "all_placed ?g r r2" by (rule all_placed_header [OF p2])
    have cap2: "capacity_ok (new_state r2)" using p2 by (simp add: all_placed_def)
    have "size (mset (placed (new_state r2))) = size (mset (placed (new_state r)) + mset ?g)"
      using p2' by (simp add: all_placed_def)
    then have "length (placed (new_state r2)) + length (concat (map previous_state keys)) \<le> 24"
      using Cons.prems(3) by simp
    from Cons.IH [OF Cons.prems(1) cap2 this] obtain r' where
      r': "distribute_groups rs previous_state keys r2 = (None, r')"
          "all_placed (concat (map previous_state keys)) r2 r'" by blast
    have "all_placed (?g @ concat (map previous_state keys)) r r'"
      by (rule all_placed_trans [OF p2' r'(2)])
    moreover have "distribute_groups rs previous_state (key # keys) r = (None, r')"
      using False step r'(1) by (simp del: place_free.simps place_constrained.simps)
    ultimately show ?thesis by simp
  qed
qed

lemma allocate_places_all:
  assumes "valid_draws rs" and "length (all_items previous_state) \<le> 24"
  shows "\<exists>r. allocate rs previous_state = (None, r) \<and>
           all_placed (all_items previous_state) start r"
proof -
  have cap: "capacity_ok (new_state start)"
    by (simp add: start_def capacity_ok_def fresh_state_def)
  have "placed (new_state start) = []"
    by (simp add: start_def placed_def fresh_state_def)
  then have "length (placed (new_state start)) + length (concat (map previous_state station_keys)) \<le> 24"
    using assms(2) by (simp add: all_items_def)
  from distribute_groups_conserves [OF assms(1) cap this] show ?thesis
    by (simp add: allocate_def distribute_students_def all_items_def)
qed

text \<open>
  C2. With draws in 1..8, for every previous state whose groups 0..8 hold at most 24
  students in all, the allocation returns with no exception, the students in the
  stations 1..8 of the new state are, as a multiset, exactly the students of the
  previous state, key 0 of the new state stays empty, the two totals are equal, and no
  student is reported as not assigned.
\<close>

theorem conservation:
  assumes "valid_draws rs" and "length (all_items previous_state) \<le> 24"
  shows "\<exists>r. allocate rs previous_state = (None, r) \<and>
           mset (placed (new_state r)) = mset (all_items previous_state) \<and>
           new_state r 0 = [] \<and>
           length (all_items (new_state r)) = length (all_items previous_state) \<and>
           (\<forall>x. Not_assigned x \<notin> set (log r))"
proof -
  from allocate_places_all [OF assms] obtain r where
    run: "allocate rs previous_state = (None, r)" and
    p: "all_placed (all_items previous_state) start r" by blast
  have empty: "placed (new_state start) = []"
    by (simp add: start_def placed_def fresh_state_def)
  have m: "mset (placed (new_state r)) = mset (all_items previous_state)"
    using p empty by (simp add: all_placed_def)
  have z: "new_state r 0 = []" using p by (simp add: all_placed_def start_def fresh_state_def)
  have "all_items (new_state r) = new_state r 0 @ placed (new_state r)"
    unfolding all_items_def placed_def keys_list upt_1_9 by simp
  then have "size (mset (all_items (new_state r))) = size (mset (all_items previous_state))"
    using m z by simp
  then have l: "length (all_items (new_state r)) = length (all_items previous_state)" by simp
  have "\<forall>x. Not_assigned x \<notin> set (log r)"
    using p by (auto simp: all_placed_def start_def)
  then show ?thesis using run m z l by simp
qed

lemma cyclic_valid: "valid_draws (\<lambda>p. 1 + p mod 8)"
  unfolding valid_draws_def
proof (intro allI conjI)
  fix p :: nat
  show "1 \<le> 1 + p mod 8" by simp
  have "p mod 8 < 8" by simp
  then show "1 + p mod 8 \<le> 8" by linarith
qed

theorem conservation_witness:
  "valid_draws (\<lambda>p. 1 + p mod 8) \<and>
   length (all_items (fresh_state(0 := [4], 2 := [0, 1]))) \<le> 24 \<and>
   (\<exists>r. allocate (\<lambda>p. 1 + p mod 8) (fresh_state(0 := [4], 2 := [0, 1])) = (None, r) \<and>
      mset (placed (new_state r)) = {#4, 0, 1#} \<and> new_state r 0 = [] \<and>
      length (all_items (new_state r)) = 3)"
proof -
  let ?prev = "fresh_state(0 := [4], 2 := [0, 1::nat])"
  have i: "all_items ?prev = [4, 0, 1]" by (simp add: all_items_def keys_list fresh_state_def)
  then have le: "length (all_items ?prev) \<le> 24" by simp
  from conservation [OF cyclic_valid le] show ?thesis using cyclic_valid le i by auto
qed

subsection \<open>Exceptions of the search\<close>

lemma fra_error: "find_random_available rs st p = (Inl e, p') \<Longrightarrow> e = ValueError"
  by (auto simp: find_random_available_def split: if_splits prod.splits option.splits)

lemma assign_retry_error: "assign_retry rs g st a k p = (Inl e, p') \<Longrightarrow> e = ValueError"
proof (induction rs g st a k p rule: assign_retry.induct)
  case (1 rs g st a k p)
  show ?case
  proof (cases "\<not> check_not_in_list g (st a) \<and> k < 15")
    case True
    obtain res q where f: "find_random_available rs st p = (res, q)"
      by (cases "find_random_available rs st p")
    show ?thesis
    proof (cases res)
      case (Inl e')
      then show ?thesis
        using "1.prems" True f fra_error [of rs st p e' q]
        by (simp add: assign_retry.simps [of rs g st a k p])
    next
      case (Inr b)
      then have "assign_retry rs g st b (k + 1) q = (Inl e, p')"
        using "1.prems" True f by (simp add: assign_retry.simps [of rs g st a k p])
      then show ?thesis using "1.IH" [OF True f [symmetric] _] Inr by simp
    qed
  next
    case False
    then show ?thesis using "1.prems" by (auto simp: assign_retry.simps [of rs g st a k p])
  qed
qed

lemma assign_station_error:
  "assign_station_for_student rs x g st p = (Inl e, p') \<Longrightarrow> e = ValueError"
  by (auto simp: assign_station_for_student_def split: prod.splits sum.splits
      dest: fra_error assign_retry_error)

lemma place_constrained_contains: "fst (place_constrained rs g studs r) = None"
proof (induction studs arbitrary: r)
  case Nil
  then show ?case by simp
next
  case (Cons x studs)
  obtain res p' where f: "assign_station_for_student rs x g (new_state r) (pos r) = (res, p')"
    by (cases "assign_station_for_student rs x g (new_state r) (pos r)")
  show ?case
  proof (cases res)
    case (Inl e)
    then have "e = ValueError" using f assign_station_error by blast
    then show ?thesis using f Inl Cons.IH by simp
  next
    case (Inr s)
    then show ?thesis using f Cons.IH by simp
  qed
qed

lemma place_constrained_tries_all:
  "length (log (snd (place_constrained rs g studs r))) = length (log r) + length studs"
proof (induction studs arbitrary: r)
  case Nil
  then show ?case by simp
next
  case (Cons x studs)
  obtain res p' where f: "assign_station_for_student rs x g (new_state r) (pos r) = (res, p')"
    by (cases "assign_station_for_student rs x g (new_state r) (pos r)")
  show ?case
  proof (cases res)
    case (Inl e)
    then have "e = ValueError" using f assign_station_error by blast
    then show ?thesis using f Inl Cons.IH by simp
  next
    case (Inr s)
    then show ?thesis using f Cons.IH by (simp add: place_def)
  qed
qed

text \<open>
  C6. The loop over a group with a nonzero key never lets an exception out and logs
  one line for each of its students, whatever the state: there the failure of one
  placement is contained. The loop over group 0 has no handler: with 25 students in
  group 0 and one in group 1, the 25th placement raises \<^verbatim>\<open>ValueError\<close> out of
  \<^verbatim>\<open>_distribute_students\<close>; the log ends after the header and the 24
  placements, and group 1 is never reached.
\<close>

theorem group0_overflow_aborts:
  "fst (place_constrained rs g studs r) = None \<and>
   length (log (snd (place_constrained rs g studs r))) = length (log r) + length studs \<and>
   fst (allocate (\<lambda>p. 1 + p mod 8) (fresh_state(0 := [0..<25], 1 := [25]))) = Some ValueError \<and>
   length (log (snd (allocate (\<lambda>p. 1 + p mod 8) (fresh_state(0 := [0..<25], 1 := [25]))))) = 25"
proof -
  have "fst (allocate (\<lambda>p. 1 + p mod 8) (fresh_state(0 := [0..<25], 1 := [25]))) = Some ValueError"
    by code_simp
  moreover have
    "length (log (snd (allocate (\<lambda>p. 1 + p mod 8) (fresh_state(0 := [0..<25], 1 := [25]))))) = 25"
    by code_simp
  ultimately show ?thesis
    using place_constrained_contains place_constrained_tries_all by simp
qed

subsection \<open>The order of the groups\<close>







subsection \<open>Three students of one group\<close>













end
